theory Spec2Isabelle
  imports Complex_Main
begin

section \<open>Data model of \<open>src/services/Scheduler.ts\<close> and \<open>src/models/Task.ts\<close>\<close>

text \<open>
  A \<open>Date\<close> is its time value: an integer number of milliseconds since the epoch
  (UTC). The scheduler reads and writes dates through the local-time accessors
  (\<open>setHours\<close>, \<open>getDay\<close>, \<open>setDate\<close>, \<open>setMinutes\<close>), which go through the time zone
  of the host; the zone is a parameter of the model (section \<open>The host's time zone\<close>).

  \<open>TaskMetadata\<close> keeps the four fields the scheduling core reads or writes. Numbers are
  integers (priorities and minute counts come out of \<open>parseInt\<close>).
\<close>

record Task =
  priority :: int
  timeEstimate :: int
  deadline :: "int option"
  scheduledTime :: "int option"

text \<open>
  \<open>TimeSlot.task\<close> is a reference to a \<open>Task\<close> object. The objects of one run are the
  elements of the array \<open>sortedTasks\<close>, one object for each element, as \<open>collectTasks\<close>
  builds them with one \<open>new Task\<close> for each line; so a reference is a position in that
  array, and \<open>None\<close> is \<open>undefined\<close>.
\<close>

record TimeSlot =
  startTime :: int
  endTime :: int
  task :: "nat option"

text \<open>
  \<open>workingHoursStart\<close> and \<open>workingHoursEnd\<close> are held as the two numbers that
  \<open>split(':').map(Number)\<close> destructures out of the \<open>'HH:MM'\<close> string.
\<close>

record SchedulerSettings =
  startHour :: int
  startMinute :: int
  endHour :: int
  endMinute :: int
  workingDays :: "int list"

text \<open>
  \<open>DEFAULT_SETTINGS\<close> of \<open>main.ts\<close>: \<open>'09:00'\<close> to \<open>'17:00'\<close>, Monday to Friday.
\<close>

definition DEFAULT_SETTINGS :: SchedulerSettings where
  "DEFAULT_SETTINGS =
     \<lparr>startHour = 9, startMinute = 0, endHour = 17, endMinute = 0, workingDays = [1, 2, 3, 4, 5]\<rparr>"


text \<open>
  The mutable objects of one \<open>scheduleTasks\<close> run: the slot objects of
  \<open>availableSlots\<close> and the task objects of \<open>sortedTasks\<close>, each addressed by its
  position.
\<close>

record sched_state =
  availableSlots :: "TimeSlot list"
  sortedTasks :: "Task list"

datatype error = TypeError

section \<open>The host's time zone\<close>

text \<open>
  The zone of the host over the time a run looks at: a standard offset from UTC and one
  daylight-saving period, from the instant \<open>dstStart\<close> to the instant \<open>dstEnd\<close>, during
  which the offset is larger by \<open>dstShift\<close> (all in milliseconds). The period is empty
  when \<open>dstEnd \<le> dstStart\<close> or \<open>dstShift = 0\<close>: the offset is then constant.
\<close>

record Zone =
  stdOffset :: int
  dstStart :: int
  dstEnd :: int
  dstShift :: int

text \<open>The offset in force at the instant \<open>t\<close> (ECMAScript's \<open>LocalTZA(t, true)\<close>).\<close>

definition utcOffset :: "Zone \<Rightarrow> int \<Rightarrow> int" where
  "utcOffset z t = stdOffset z + (if dstStart z \<le> t \<and> t < dstEnd z then dstShift z else 0)"

text \<open>
  The offset by which the wall-clock reading \<open>x\<close> is read back as an instant
  (\<open>LocalTZA(x, false)\<close>): a reading that the clock skips, or shows twice, at a
  transition is read with the offset in force before the transition.
\<close>

definition localOffset :: "Zone \<Rightarrow> int \<Rightarrow> int" where
  "localOffset z x =
     (if x < dstStart z + stdOffset z + max 0 (dstShift z) then stdOffset z
      else if x < dstEnd z + stdOffset z + max 0 (dstShift z) then stdOffset z + dstShift z
      else stdOffset z)"

definition LocalTime :: "Zone \<Rightarrow> int \<Rightarrow> int" where
  "LocalTime z t = t + utcOffset z t"

definition UTC :: "Zone \<Rightarrow> int \<Rightarrow> int" where
  "UTC z x = x - localOffset z x"

text \<open>
  A zone without daylight saving, and Europe/London in 2026: clocks go forward at
  2026-03-29 01:00 UTC and back at 2026-10-25 01:00 UTC.
\<close>

definition utcZone :: Zone where
  "utcZone = \<lparr>stdOffset = 0, dstStart = 0, dstEnd = 0, dstShift = 0\<rparr>"

definition london2026 :: Zone where
  "london2026 =
     \<lparr>stdOffset = 0, dstStart = 1774746000000, dstEnd = 1792890000000, dstShift = 3600000\<rparr>"

section \<open>Calendar arithmetic\<close>

definition msPerMinute :: int where
  "msPerMinute = 60000"

definition msPerDay :: int where
  "msPerDay = 86400000"

definition slotDuration :: int where
  "slotDuration = 30"

text \<open>
  \<open>d.setHours(h, m, 0, 0)\<close>: the instant at which the wall clock reads \<open>h:m\<close> on the
  local day of \<open>d\<close>; \<open>h\<close> and \<open>m\<close> beyond a day's range carry over.
\<close>

definition setHours :: "Zone \<Rightarrow> int \<Rightarrow> int \<Rightarrow> int \<Rightarrow> int" where
  "setHours z d h m =
     UTC z (LocalTime z d - LocalTime z d mod msPerDay + h * 60 * msPerMinute + m * msPerMinute)"

text \<open>\<open>d.setHours(0, 0, 0, 0)\<close>: the local midnight of the day of \<open>d\<close>.\<close>

definition startOfDay :: "Zone \<Rightarrow> int \<Rightarrow> int" where
  "startOfDay z d = setHours z d 0 0"

text \<open>\<open>d.getDay()\<close>: 0 is Sunday; day 0 of the epoch was a Thursday.\<close>

definition getDay :: "Zone \<Rightarrow> int \<Rightarrow> int" where
  "getDay z d = (LocalTime z d div msPerDay + 4) mod 7"

text \<open>
  \<open>e.setMinutes(d.getMinutes() + n)\<close> on a copy \<open>e\<close> of \<open>d\<close>, \<open>e.setHours(d.getHours() + n)\<close>
  likewise, and \<open>d.setDate(d.getDate() + n)\<close>: the wall-clock reading moves by \<open>n\<close>
  minutes, hours or days and is read back as an instant.
\<close>

definition addMinutes :: "Zone \<Rightarrow> int \<Rightarrow> int \<Rightarrow> int" where
  "addMinutes z d n = UTC z (LocalTime z d + n * msPerMinute)"

definition addHours :: "Zone \<Rightarrow> int \<Rightarrow> int \<Rightarrow> int" where
  "addHours z d n = UTC z (LocalTime z d + n * 60 * msPerMinute)"

definition addDays :: "Zone \<Rightarrow> int \<Rightarrow> int \<Rightarrow> int" where
  "addDays z d n = UTC z (LocalTime z d + n * msPerDay)"

section \<open>\<open>generateTimeSlots\<close>\<close>

text \<open>
  Reading a wall-clock time back as an instant never lands before that reading, and the
  offset is bounded; so the wall clock moves on in every iteration of the slot loop.
\<close>

lemma LocalTime_UTC_ge: "x \<le> LocalTime z (UTC z x)"
  by (auto simp: LocalTime_def UTC_def utcOffset_def localOffset_def max_def split: if_splits)

lemma utcOffset_bound: "utcOffset z t \<le> \<bar>stdOffset z\<bar> + \<bar>dstShift z\<bar>"
  by (auto simp: utcOffset_def)

text \<open>
  The inner \<open>while (slotStart < dayEnd)\<close> loop, pushing onto \<open>slots\<close>.
  \<open>slotEnd.setMinutes(slotStart.getMinutes() + slotDuration)\<close> moves the wall-clock
  reading of a copy of \<open>slotStart\<close> forward by \<open>slotDuration\<close> minutes.
\<close>

function slotLoop :: "Zone \<Rightarrow> TimeSlot list \<Rightarrow> int \<Rightarrow> int \<Rightarrow> TimeSlot list" where
  "slotLoop z slots slotStart dayEnd =
     (if slotStart < dayEnd then
        (let slotEnd = addMinutes z slotStart slotDuration;
             slots' = (if slotEnd \<le> dayEnd
                       then slots @ [\<lparr>startTime = slotStart, endTime = slotEnd, task = None\<rparr>]
                       else slots)
         in slotLoop z slots' slotEnd dayEnd)
      else slots)"
  by pat_completeness auto
termination
proof (relation "measure (\<lambda>(z, slots, slotStart, dayEnd).
          nat (dayEnd + \<bar>stdOffset z\<bar> + \<bar>dstShift z\<bar> - LocalTime z slotStart))")
  show "wf (measure (\<lambda>(z, slots, slotStart, dayEnd).
          nat (dayEnd + \<bar>stdOffset z\<bar> + \<bar>dstShift z\<bar> - LocalTime z slotStart)))"
    by simp
next
  fix z :: Zone and slots :: "TimeSlot list" and slotStart dayEnd slotEnd :: int
    and slots' :: "TimeSlot list"
  assume lt: "slotStart < dayEnd" and e: "slotEnd = addMinutes z slotStart slotDuration"
  have "LocalTime z slotStart + slotDuration * msPerMinute \<le> LocalTime z slotEnd"
    unfolding e addMinutes_def by (rule LocalTime_UTC_ge)
  then have up: "LocalTime z slotStart < LocalTime z slotEnd"
    by (simp add: slotDuration_def msPerMinute_def)
  have "LocalTime z slotStart < dayEnd + \<bar>stdOffset z\<bar> + \<bar>dstShift z\<bar>"
    using lt utcOffset_bound [of z slotStart] by (simp add: LocalTime_def)
  with up show "((z, slots', slotEnd, dayEnd), (z, slots, slotStart, dayEnd))
        \<in> measure (\<lambda>(z, slots, slotStart, dayEnd).
          nat (dayEnd + \<bar>stdOffset z\<bar> + \<bar>dstShift z\<bar> - LocalTime z slotStart))"
    by simp
qed

declare slotLoop.simps [simp del]

text \<open>
  The outer \<open>for (let day = 0; day < daysToSchedule; day++)\<close> loop; the second argument
  counts the iterations that remain.
\<close>

fun dayLoop :: "Zone \<Rightarrow> SchedulerSettings \<Rightarrow> nat \<Rightarrow> TimeSlot list \<Rightarrow> int \<Rightarrow> TimeSlot list" where
  "dayLoop z settings 0 slots currentDate = slots"
| "dayLoop z settings (Suc n) slots currentDate =
     (let slots' =
        (if getDay z currentDate \<in> set (workingDays settings) then
           (let dayStart = setHours z currentDate (startHour settings) (startMinute settings);
                dayEnd = setHours z currentDate (endHour settings) (endMinute settings)
            in slotLoop z slots dayStart dayEnd)
         else slots)
      in dayLoop z settings n slots' (addDays z currentDate 1))"

definition generateTimeSlots :: "Zone \<Rightarrow> SchedulerSettings \<Rightarrow> int \<Rightarrow> int \<Rightarrow> TimeSlot list" where
  "generateTimeSlots z settings startDate daysToSchedule =
     dayLoop z settings (nat daysToSchedule) [] (startOfDay z startDate)"






text \<open>
  The offset of the zone is \<open>off\<close> throughout the instants from \<open>lo\<close> to \<open>hi\<close>, read
  either way.
\<close>

definition steady :: "Zone \<Rightarrow> int \<Rightarrow> int \<Rightarrow> int \<Rightarrow> bool" where
  "steady z off lo hi =
     ((\<forall>t. lo \<le> t \<and> t \<le> hi \<longrightarrow> utcOffset z t = off) \<and>
      (\<forall>x. lo + off \<le> x \<and> x \<le> hi + off \<longrightarrow> localOffset z x = off))"

section \<open>\<open>sortTasksByPriority\<close>\<close>

definition urgentThreshold :: int where
  "urgentThreshold = 48 * 60 * 60 * 1000"

text \<open>
  The expression bound to \<open>aIsUrgent\<close> and \<open>bIsUrgent\<close>. The source reads the clock
  in every comparison; the model takes one reading \<open>now\<close> for the whole sort.
\<close>

definition isUrgent :: "int \<Rightarrow> Task \<Rightarrow> bool" where
  "isUrgent now a = (case deadline a of None \<Rightarrow> False | Some d \<Rightarrow> d - now < urgentThreshold)"

definition compareTasks :: "int \<Rightarrow> Task \<Rightarrow> Task \<Rightarrow> int" where
  "compareTasks now a b =
     (let aIsUrgent = isUrgent now a; bIsUrgent = isUrgent now b in
      if aIsUrgent \<and> \<not> bIsUrgent then - 1
      else if \<not> aIsUrgent \<and> bIsUrgent then 1
      else if priority a \<noteq> priority b then priority a - priority b
      else (case (deadline a, deadline b) of
              (Some da, Some db) \<Rightarrow> da - db
            | (Some da, None) \<Rightarrow> - 1
            | (None, Some db) \<Rightarrow> 1
            | (None, None) \<Rightarrow> timeEstimate a - timeEstimate b))"

text \<open>
  \<open>Array.prototype.sort\<close> with a comparator is stable, and for a consistent comparator
  its result is the one stable arrangement in comparator order. A stable insertion sort
  computes it: an element goes in front of the first element it does not compare
  greater than.
\<close>

fun insertBy :: "('a \<Rightarrow> 'a \<Rightarrow> int) \<Rightarrow> 'a \<Rightarrow> 'a list \<Rightarrow> 'a list" where
  "insertBy cmp x [] = [x]"
| "insertBy cmp x (y # ys) = (if cmp x y \<le> 0 then x # y # ys else y # insertBy cmp x ys)"

fun sortBy :: "('a \<Rightarrow> 'a \<Rightarrow> int) \<Rightarrow> 'a list \<Rightarrow> 'a list" where
  "sortBy cmp [] = []"
| "sortBy cmp (x # xs) = insertBy cmp x (sortBy cmp xs)"

definition sortTasksByPriority :: "int \<Rightarrow> Task list \<Rightarrow> Task list" where
  "sortTasksByPriority now tasks = sortBy (compareTasks now) tasks"

text \<open>\<open>Task.isDueSoon\<close>, with \<open>now\<close> for its reading of the clock.\<close>

definition isDueSoon :: "Zone \<Rightarrow> int \<Rightarrow> Task \<Rightarrow> bool" where
  "isDueSoon z now t =
     (case deadline t of
        None \<Rightarrow> False
      | Some d \<Rightarrow> (let twoDaysFromNow = addHours z now 48 in d > now \<and> d \<le> twoDaysFromNow))"

section \<open>\<open>findConsecutiveSlots\<close>\<close>

text \<open>\<open>xs.slice(0, e)\<close>: a negative end counts from the end of the array.\<close>

definition slice0 :: "'a list \<Rightarrow> int \<Rightarrow> 'a list" where
  "slice0 xs e = (if e < 0 then take (nat (int (length xs) + e)) xs else take (nat e) xs)"

text \<open>
  The array \<open>slots\<close> holds references to slot objects: positions in the heap \<open>h\<close> of
  slot objects. The loop carries \<open>consecutiveSlots\<close> and \<open>lastSlotTime\<close>.
\<close>

fun findLoop :: "TimeSlot list \<Rightarrow> int \<Rightarrow> nat list \<Rightarrow> int option \<Rightarrow> nat list \<Rightarrow> nat list" where
  "findLoop h slotsNeeded consecutiveSlots lastSlotTime [] = []"
| "findLoop h slotsNeeded consecutiveSlots lastSlotTime (r # rs) =
     (let slot = h ! r in
      if task slot \<noteq> None then findLoop h slotsNeeded consecutiveSlots lastSlotTime rs
      else
        (let consecutiveSlots' =
               (if lastSlotTime \<noteq> None \<and> Some (startTime slot) \<noteq> lastSlotTime
                then [] else consecutiveSlots) @ [r]
         in if int (length consecutiveSlots') \<ge> slotsNeeded
            then slice0 consecutiveSlots' slotsNeeded
            else findLoop h slotsNeeded consecutiveSlots' (Some (endTime slot)) rs))"

definition findConsecutiveSlots :: "TimeSlot list \<Rightarrow> nat list \<Rightarrow> int \<Rightarrow> nat list" where
  "findConsecutiveSlots h slots slotsNeeded = findLoop h slotsNeeded [] None slots"

text \<open>Slot \<open>r\<close> ends at the instant slot \<open>r'\<close> starts.\<close>

definition adjacent :: "TimeSlot list \<Rightarrow> nat \<Rightarrow> nat \<Rightarrow> bool" where
  "adjacent h r r' = (endTime (h ! r) = startTime (h ! r'))"

section \<open>Placement\<close>

text \<open>\<open>Math.ceil(timeEstimate / 30)\<close> on an integer \<open>timeEstimate\<close>.\<close>

definition slotsNeededFor :: "int \<Rightarrow> int" where
  "slotsNeededFor te = - ((- te) div 30)"

text \<open>
  \<open>assignTaskToSlots\<close>: the loop (\<open>markSlots\<close>) writes \<open>slot.task\<close>, then
  \<open>slots[0].startTime\<close> is read; on an empty array \<open>slots[0]\<close> is \<open>undefined\<close> and
  the read throws a TypeError.
\<close>

definition markSlots :: "nat \<Rightarrow> nat list \<Rightarrow> TimeSlot list \<Rightarrow> TimeSlot list" where
  "markSlots t slots h = fold (\<lambda>r h. h[r := (h ! r)\<lparr>task := Some t\<rparr>]) slots h"

definition assignTaskToSlots :: "nat \<Rightarrow> nat list \<Rightarrow> sched_state \<Rightarrow> error + sched_state" where
  "assignTaskToSlots t slots st =
     (let h = markSlots t slots (availableSlots st) in
      case slots of
        [] \<Rightarrow> Inl TypeError
      | r0 # _ \<Rightarrow>
          Inr \<lparr>availableSlots = h,
               sortedTasks = (sortedTasks st)
                 [t := (sortedTasks st ! t)\<lparr>scheduledTime := Some (startTime (h ! r0))\<rparr>]\<rparr>)"

definition scheduleTaskWithDeadline :: "nat \<Rightarrow> sched_state \<Rightarrow> error + (bool \<times> sched_state)" where
  "scheduleTaskWithDeadline t st =
     (case deadline (sortedTasks st ! t) of
        None \<Rightarrow> Inr (False, st)
      | Some d \<Rightarrow>
          (let deadlineSlots =
                 filter (\<lambda>i. task (availableSlots st ! i) = None \<and> endTime (availableSlots st ! i) \<le> d)
                   [0..<length (availableSlots st)]
           in if length deadlineSlots = 0 then Inr (False, st)
              else
                (let slotsNeeded = slotsNeededFor (timeEstimate (sortedTasks st ! t));
                     consecutiveSlots = findConsecutiveSlots (availableSlots st) deadlineSlots slotsNeeded
                 in if int (length consecutiveSlots) \<ge> slotsNeeded
                    then (case assignTaskToSlots t consecutiveSlots st of
                            Inl e \<Rightarrow> Inl e
                          | Inr st' \<Rightarrow> Inr (True, st'))
                    else Inr (False, st))))"

definition scheduleTaskAnywhere :: "nat \<Rightarrow> sched_state \<Rightarrow> error + (bool \<times> sched_state)" where
  "scheduleTaskAnywhere t st =
     (let slotsNeeded = slotsNeededFor (timeEstimate (sortedTasks st ! t));
          consecutiveSlots =
            findConsecutiveSlots (availableSlots st) [0..<length (availableSlots st)] slotsNeeded
      in if int (length consecutiveSlots) \<ge> slotsNeeded
         then (case assignTaskToSlots t consecutiveSlots st of
                 Inl e \<Rightarrow> Inl e
               | Inr st' \<Rightarrow> Inr (True, st'))
         else Inr (False, st))"

text \<open>The two \<open>for (const task of sortedTasks)\<close> loops of \<open>scheduleTasks\<close>.\<close>

fun firstPass :: "nat list \<Rightarrow> sched_state \<Rightarrow> error + sched_state" where
  "firstPass [] st = Inr st"
| "firstPass (t # ts) st =
     (if deadline (sortedTasks st ! t) \<noteq> None then
        (case scheduleTaskWithDeadline t st of
           Inl e \<Rightarrow> Inl e
         | Inr (ok, st') \<Rightarrow> firstPass ts st')
      else firstPass ts st)"

fun secondPass :: "nat list \<Rightarrow> sched_state \<Rightarrow> error + sched_state" where
  "secondPass [] st = Inr st"
| "secondPass (t # ts) st =
     (if scheduledTime (sortedTasks st ! t) = None then
        (case scheduleTaskAnywhere t st of
           Inl e \<Rightarrow> Inl e
         | Inr (ok, st') \<Rightarrow> secondPass ts st')
      else secondPass ts st)"

text \<open>
  Both passes over a slot array and a sorted task array. The result state holds the
  returned array \<open>sortedTasks\<close> and the slot objects the run leaves behind.
\<close>

definition placeTasks :: "TimeSlot list \<Rightarrow> Task list \<Rightarrow> error + sched_state" where
  "placeTasks slots tasks =
     (case firstPass [0..<length tasks] \<lparr>availableSlots = slots, sortedTasks = tasks\<rparr> of
        Inl e \<Rightarrow> Inl e
      | Inr st \<Rightarrow> secondPass [0..<length tasks] st)"

definition scheduleTasks ::
  "Zone \<Rightarrow> int \<Rightarrow> SchedulerSettings \<Rightarrow> Task list \<Rightarrow> int \<Rightarrow> int \<Rightarrow> error + sched_state" where
  "scheduleTasks z now settings tasks startDate daysToSchedule =
     placeTasks (generateTimeSlots z settings startDate daysToSchedule)
                (sortTasksByPriority now tasks)"

section \<open>States of a run\<close>

text \<open>
  The run stopped after the first \<open>k\<close> iterations, counted through both loops: the
  states a run of \<open>n\<close> tasks passes through are those for \<open>k = 0, \<dots>, 2 * n\<close>.
\<close>

definition placeUpTo :: "nat \<Rightarrow> TimeSlot list \<Rightarrow> Task list \<Rightarrow> error + sched_state" where
  "placeUpTo k slots tasks =
     (if k \<le> length tasks
      then firstPass [0..<k] \<lparr>availableSlots = slots, sortedTasks = tasks\<rparr>
      else (case firstPass [0..<length tasks] \<lparr>availableSlots = slots, sortedTasks = tasks\<rparr> of
              Inl e \<Rightarrow> Inl e
            | Inr st \<Rightarrow> secondPass [0..<k - length tasks] st))"

definition scheduleTasksUpTo ::
  "nat \<Rightarrow> Zone \<Rightarrow> int \<Rightarrow> SchedulerSettings \<Rightarrow> Task list \<Rightarrow> int \<Rightarrow> int \<Rightarrow> error + sched_state"
  where
  "scheduleTasksUpTo k z now settings tasks startDate daysToSchedule =
     placeUpTo k (generateTimeSlots z settings startDate daysToSchedule)
                 (sortTasksByPriority now tasks)"

text \<open>The number of slots whose \<open>task\<close> is the task object \<open>j\<close>.\<close>

definition slotsOf :: "nat \<Rightarrow> TimeSlot list \<Rightarrow> nat" where
  "slotsOf j h = length (filter (\<lambda>sl. task sl = Some j) h)"

text \<open>
  A block of slot references as a successful search returns it: not empty, without
  repetition, every slot in the heap and free, each ending where the next starts. And
  the state \<open>assignTaskToSlots\<close> leaves when it is given such a block.
\<close>

definition freeBlock :: "TimeSlot list \<Rightarrow> nat list \<Rightarrow> bool" where
  "freeBlock h rs =
     (rs \<noteq> [] \<and> distinct rs \<and> list_all (\<lambda>r. r < length h \<and> task (h ! r) = None) rs \<and>
      successively (adjacent h) rs)"

definition placeOn :: "nat \<Rightarrow> nat list \<Rightarrow> sched_state \<Rightarrow> sched_state" where
  "placeOn t rs st =
     \<lparr>availableSlots = markSlots t rs (availableSlots st),
      sortedTasks = (sortedTasks st)
        [t := (sortedTasks st ! t)\<lparr>scheduledTime := Some (startTime (availableSlots st ! hd rs))\<rparr>]\<rparr>"

text \<open>
  Two relations between states of one run. \<open>grows st st'\<close>: the arrays keep their
  lengths, a slot that has a task keeps it, and a \<open>scheduledTime\<close> that differs from
  before is defined. \<open>settled ts0 st\<close>, for the task array \<open>ts0\<close> the run started from:
  every task either has the \<open>scheduledTime\<close> it started with and no slot, or has a
  \<open>scheduledTime\<close> and as many slots as its \<open>timeEstimate\<close> needs.
\<close>

definition grows :: "sched_state \<Rightarrow> sched_state \<Rightarrow> bool" where
  "grows st st' =
     (length (availableSlots st') = length (availableSlots st) \<and>
      length (sortedTasks st') = length (sortedTasks st) \<and>
      (\<forall>i<length (availableSlots st).
         task (availableSlots st ! i) \<noteq> None \<longrightarrow>
         task (availableSlots st' ! i) = task (availableSlots st ! i)) \<and>
      (\<forall>j<length (sortedTasks st).
         scheduledTime (sortedTasks st' ! j) = scheduledTime (sortedTasks st ! j) \<or>
         scheduledTime (sortedTasks st' ! j) \<noteq> None))"

definition settled :: "Task list \<Rightarrow> sched_state \<Rightarrow> bool" where
  "settled ts0 st =
     (length (sortedTasks st) = length ts0 \<and>
      (\<forall>j<length ts0.
         timeEstimate (sortedTasks st ! j) = timeEstimate (ts0 ! j) \<and>
         (scheduledTime (sortedTasks st ! j) = scheduledTime (ts0 ! j) \<and>
            slotsOf j (availableSlots st) = 0 \<or>
          scheduledTime (sortedTasks st ! j) \<noteq> None \<and>
            int (slotsOf j (availableSlots st)) = slotsNeededFor (timeEstimate (ts0 ! j)))))"

text \<open>
  An example input: an hour of work without a deadline, and 45 minutes due at noon of
  the first day.
\<close>

definition exampleTasks :: "Task list" where
  "exampleTasks =
     [\<lparr>priority = 3, timeEstimate = 60, deadline = None, scheduledTime = None\<rparr>,
      \<lparr>priority = 1, timeEstimate = 45, deadline = Some 43200000, scheduledTime = None\<rparr>]"

section \<open>The comparator\<close>

lemma isUrgent_no_deadline: "deadline b = None \<Longrightarrow> \<not> isUrgent now b"
  by (simp add: isUrgent_def)

text \<open>
  C7: a task whose deadline is less than 48 hours after \<open>now\<close> compares strictly before
  a task without a deadline, whatever the two priorities are (priority 1 included), and
  the comparator says so in both argument orders.
\<close>

theorem urgent_before_no_deadline:
  assumes "deadline a = Some d" and "d - now < 48 * 60 * 60 * 1000" and "deadline b = None"
  shows "compareTasks now a b < 0 \<and> compareTasks now b a > 0"
  using assms by (simp add: compareTasks_def isUrgent_def urgentThreshold_def)

theorem urgent_before_no_deadline_witness:
  "compareTasks 0 \<lparr>priority = 5, timeEstimate = 30, deadline = Some 3600000, scheduledTime = None\<rparr>
                  \<lparr>priority = 1, timeEstimate = 30, deadline = None, scheduledTime = None\<rparr> < 0
   \<and> compareTasks 0 \<lparr>priority = 1, timeEstimate = 30, deadline = None, scheduledTime = None\<rparr>
                  \<lparr>priority = 5, timeEstimate = 30, deadline = Some 3600000, scheduledTime = None\<rparr> > 0"
  using urgent_before_no_deadline
    [of "\<lparr>priority = 5, timeEstimate = 30, deadline = Some 3600000, scheduledTime = None\<rparr>"
        3600000 0
        "\<lparr>priority = 1, timeEstimate = 30, deadline = None, scheduledTime = None\<rparr>"]
  by simp

text \<open>
  With one clock reading the comparator is consistent: swapping the arguments negates
  the result, and "not greater" is total and transitive.
\<close>

lemma compareTasks_flip: "compareTasks now b a = - compareTasks now a b"
  by (auto simp: compareTasks_def Let_def split: option.splits)

lemma compareTasks_total: "compareTasks now a b > 0 \<Longrightarrow> compareTasks now b a \<le> 0"
  by (auto simp: compareTasks_def Let_def split: if_splits option.splits)

lemma compareTasks_trans:
  "compareTasks now a b \<le> 0 \<Longrightarrow> compareTasks now b c \<le> 0 \<Longrightarrow> compareTasks now a c \<le> 0"
  by (auto simp: compareTasks_def Let_def isUrgent_def split: if_splits option.splits)

section \<open>The stable sort\<close>

lemma set_insertBy: "set (insertBy cmp x ys) = insert x (set ys)"
  by (induction ys) auto

lemma length_insertBy: "length (insertBy cmp x ys) = Suc (length ys)"
  by (induction ys) auto

lemma length_sortBy: "length (sortBy cmp xs) = length xs"
  by (induction xs) (auto simp: length_insertBy)

lemma sorted_insertBy:
  assumes tot: "\<And>a b. cmp a b > 0 \<Longrightarrow> cmp b a \<le> 0"
    and trans: "\<And>a b c. cmp a b \<le> 0 \<Longrightarrow> cmp b c \<le> 0 \<Longrightarrow> cmp a c \<le> 0"
    and "sorted_wrt (\<lambda>a b. cmp a b \<le> 0) ys"
  shows "sorted_wrt (\<lambda>a b. cmp a b \<le> 0) (insertBy cmp x ys)"
  using assms(3)
proof (induction ys)
  case Nil
  then show ?case by simp
next
  case (Cons y ys)
  show ?case
  proof (cases "cmp x y \<le> 0")
    case True
    with Cons.prems show ?thesis by (auto intro: trans)
  next
    case False
    then have "cmp y x \<le> 0" using tot [of x y] by simp
    with False Cons show ?thesis by (auto simp: set_insertBy)
  qed
qed

lemma sorted_sortBy:
  assumes tot: "\<And>a b. cmp a b > 0 \<Longrightarrow> cmp b a \<le> 0"
    and trans: "\<And>a b c. cmp a b \<le> 0 \<Longrightarrow> cmp b c \<le> 0 \<Longrightarrow> cmp a c \<le> 0"
  shows "sorted_wrt (\<lambda>a b. cmp a b \<le> 0) (sortBy cmp xs)"
  by (induction xs) (auto intro: sorted_insertBy tot trans)

text \<open>Sorting a list that is already in comparator order returns it unchanged.\<close>

lemma sortBy_sorted_id:
  "sorted_wrt (\<lambda>a b. cmp a b \<le> 0) xs \<Longrightarrow> sortBy cmp xs = xs"
proof (induction xs)
  case Nil
  then show ?case by simp
next
  case (Cons x xs)
  then have "sortBy cmp xs = xs" by simp
  moreover have "insertBy cmp x xs = x # xs"
    using Cons.prems by (cases xs) auto
  ultimately show ?case by simp
qed

lemma sorted_sortTasksByPriority:
  "sorted_wrt (\<lambda>a b. compareTasks now a b \<le> 0) (sortTasksByPriority now tasks)"
  unfolding sortTasksByPriority_def
  by (rule sorted_sortBy) (blast intro: compareTasks_total compareTasks_trans)+

lemma length_sortTasksByPriority: "length (sortTasksByPriority now tasks) = length tasks"
  by (simp add: sortTasksByPriority_def length_sortBy)

text \<open>
  C6: with one reading of the clock for all comparisons, ranking a ranked list returns
  the same list: \<open>rank (rank x) = rank x\<close>.
\<close>

theorem rank_idempotent:
  "sortTasksByPriority now (sortTasksByPriority now tasks) = sortTasksByPriority now tasks"
proof -
  have "sortBy (compareTasks now) (sortTasksByPriority now tasks) = sortTasksByPriority now tasks"
    by (rule sortBy_sorted_id) (rule sorted_sortTasksByPriority)
  then show ?thesis by (simp add: sortTasksByPriority_def)
qed

text \<open>
  C10: a task whose deadline is before \<open>now\<close> is urgent for the comparator, since
  \<open>deadline - now\<close> is negative; it compares strictly before every task that is not
  urgent, whatever the priorities, and stands before every such task in the ranked
  array. \<open>Task.isDueSoon\<close> says of the same task that it is not due soon.
\<close>

theorem past_deadline_is_urgent:
  assumes "deadline a = Some d" and "d < now"
  shows "isUrgent now a \<and> \<not> isDueSoon z now a \<and>
         (\<forall>b. \<not> isUrgent now b \<longrightarrow> compareTasks now a b < 0 \<and> compareTasks now b a > 0) \<and>
         (\<forall>tasks i j. i < length tasks \<and> j < length tasks \<and>
             sortTasksByPriority now tasks ! i = a \<and>
             \<not> isUrgent now (sortTasksByPriority now tasks ! j) \<longrightarrow> i < j)"
proof -
  have urg: "isUrgent now a"
    using assms by (simp add: isUrgent_def urgentThreshold_def)
  have due: "\<not> isDueSoon z now a"
    using assms by (simp add: isDueSoon_def)
  have cmp: "compareTasks now a b < 0 \<and> compareTasks now b a > 0" if "\<not> isUrgent now b" for b
    using urg that by (simp add: compareTasks_def)
  have ord: "i < j"
    if len: "i < length tasks" "j < length tasks"
      and a: "sortTasksByPriority now tasks ! i = a"
      and b: "\<not> isUrgent now (sortTasksByPriority now tasks ! j)"
    for tasks i j
  proof (rule ccontr)
    assume "\<not> i < j"
    moreover have "i \<noteq> j" using a b urg by auto
    ultimately have "j < i" by simp
    with len have "compareTasks now (sortTasksByPriority now tasks ! j) (sortTasksByPriority now tasks ! i) \<le> 0"
      using sorted_sortTasksByPriority [of now tasks]
      by (simp add: sorted_wrt_iff_nth_less length_sortTasksByPriority)
    with cmp [OF b] a show False by simp
  qed
  from urg due cmp ord show ?thesis by blast
qed

theorem past_deadline_is_urgent_witness:
  "isUrgent 1000 \<lparr>priority = 5, timeEstimate = 30, deadline = Some 0, scheduledTime = None\<rparr>
   \<and> \<not> isDueSoon london2026 1000 \<lparr>priority = 5, timeEstimate = 30, deadline = Some 0, scheduledTime = None\<rparr>
   \<and> compareTasks 1000 \<lparr>priority = 5, timeEstimate = 30, deadline = Some 0, scheduledTime = None\<rparr>
        \<lparr>priority = 1, timeEstimate = 30, deadline = Some 259200000, scheduledTime = None\<rparr> < 0"
proof -
  have nb: "\<not> isUrgent 1000 \<lparr>priority = 1, timeEstimate = 30, deadline = Some 259200000, scheduledTime = None\<rparr>"
    by (simp add: isUrgent_def urgentThreshold_def)
  show ?thesis
    using past_deadline_is_urgent
      [of "\<lparr>priority = 5, timeEstimate = 30, deadline = Some 0, scheduledTime = None\<rparr>" 0 1000 london2026] nb
    by simp
qed

section \<open>The consecutive-slot search\<close>

lemma successively_nth:
  "successively P xs \<Longrightarrow> Suc i < length xs \<Longrightarrow> P (xs ! i) (xs ! Suc i)"
proof (induction P xs arbitrary: i rule: successively.induct)
  case (3 P x y xs)
  then show ?case by (cases i) auto
qed auto

lemma successively_take: "successively P xs \<Longrightarrow> successively P (take n xs)"
  using successively_append_iff [of P "take n xs" "drop n xs"] by simp

lemma slice0_pos: "0 < n \<Longrightarrow> slice0 xs n = take (nat n) xs"
  by (simp add: slice0_def)

text \<open>
  The loop invariant: \<open>consecutiveSlots\<close> is shorter than \<open>slotsNeeded\<close>, holds free
  slots only, each ending where the next starts, and \<open>lastSlotTime\<close> is the end of its
  last slot.
\<close>

lemma findLoop_inv:
  assumes "0 < n"
    and "int (length acc) < n"
    and "\<forall>r\<in>set acc. task (h ! r) = None"
    and "successively (adjacent h) acc"
    and "acc \<noteq> [] \<longrightarrow> lst = Some (endTime (h ! last acc))"
    and "res = findLoop h n acc lst rs"
  shows "res = [] \<or>
         (int (length res) = n \<and> (\<forall>r\<in>set res. task (h ! r) = None) \<and>
          successively (adjacent h) res \<and> set res \<subseteq> set (acc @ rs))"
  using assms(2-)
proof (induction rs arbitrary: acc lst)
  case Nil
  then show ?case by simp
next
  case (Cons r rs)
  show ?case
  proof (cases "task (h ! r) \<noteq> None")
    case True
    then have "res = findLoop h n acc lst rs" using Cons.prems by simp
    then have "res = [] \<or>
         (int (length res) = n \<and> (\<forall>r\<in>set res. task (h ! r) = None) \<and>
          successively (adjacent h) res \<and> set res \<subseteq> set (acc @ rs))"
      using Cons.IH [of acc lst] Cons.prems by blast
    then show ?thesis by auto
  next
    case False
    define acc' where
      "acc' = (if lst \<noteq> None \<and> Some (startTime (h ! r)) \<noteq> lst then [] else acc) @ [r]"
    have free: "\<forall>r\<in>set acc'. task (h ! r) = None"
      using False Cons.prems by (auto simp: acc'_def)
    have adj: "successively (adjacent h) acc'"
      using Cons.prems by (auto simp: acc'_def successively_append_iff adjacent_def)
    have lst': "acc' \<noteq> [] \<longrightarrow> Some (endTime (h ! r)) = Some (endTime (h ! last acc'))"
      by (simp add: acc'_def)
    have sub: "set (acc' @ rs) \<subseteq> set (acc @ r # rs)"
      by (auto simp: acc'_def)
    have len: "int (length acc') \<le> n"
      using Cons.prems by (auto simp: acc'_def)
    show ?thesis
    proof (cases "int (length acc') \<ge> n")
      case True
      then have res: "res = take (nat n) acc'"
        using False Cons.prems(5) assms(1) by (simp add: acc'_def Let_def slice0_pos)
      have "int (length res) = n" using True len assms(1) by (simp add: res)
      moreover have "\<forall>r\<in>set res. task (h ! r) = None"
        using free by (auto simp: res dest: in_set_takeD)
      moreover have "successively (adjacent h) res"
        using adj by (simp add: res successively_take)
      moreover have "set res \<subseteq> set (acc @ r # rs)"
        using sub by (auto simp: res dest: in_set_takeD)
      ultimately show ?thesis by blast
    next
      case False2: False
      then have "res = findLoop h n acc' (Some (endTime (h ! r))) rs"
        using False Cons.prems(5) by (simp add: acc'_def Let_def)
      then have "res = [] \<or>
         (int (length res) = n \<and> (\<forall>r\<in>set res. task (h ! r) = None) \<and>
          successively (adjacent h) res \<and> set res \<subseteq> set (acc' @ rs))"
        using Cons.IH [of acc' "Some (endTime (h ! r))"] False2 free adj lst' by simp
      with sub show ?thesis by blast
    qed
  qed
qed

lemma findLoop_distinct:
  "0 < n \<Longrightarrow> distinct (acc @ rs) \<Longrightarrow> distinct (findLoop h n acc lst rs)"
proof (induction rs arbitrary: acc lst)
  case Nil
  then show ?case by simp
next
  case (Cons r rs)
  have d1: "distinct (acc @ rs)" and d2: "distinct ((acc @ [r]) @ rs)" and d3: "distinct ([r] @ rs)"
    using Cons.prems(2) by auto
  have t1: "distinct (take (nat n) (acc @ [r]))" and t2: "distinct (take (nat n) [r])"
    using d2 by (simp_all del: take_append)
  show ?case
    using Cons.IH [OF Cons.prems(1) d1] Cons.IH [OF Cons.prems(1) d2]
      Cons.IH [OF Cons.prems(1) d3] t1 t2 Cons.prems(1)
    by (simp add: Let_def slice0_pos del: take_append)
qed

lemma findConsecutiveSlots_found:
  assumes "0 < n" and "findConsecutiveSlots h slots n \<noteq> []"
  shows "int (length (findConsecutiveSlots h slots n)) = n"
    and "\<forall>r\<in>set (findConsecutiveSlots h slots n). task (h ! r) = None"
    and "successively (adjacent h) (findConsecutiveSlots h slots n)"
    and "set (findConsecutiveSlots h slots n) \<subseteq> set slots"
  using findLoop_inv [of n "[]" h None "findConsecutiveSlots h slots n" slots] assms
  by (simp_all add: findConsecutiveSlots_def)

lemma findConsecutiveSlots_distinct:
  "0 < n \<Longrightarrow> distinct slots \<Longrightarrow> distinct (findConsecutiveSlots h slots n)"
  using findLoop_distinct [of n "[]" slots h None] by (simp add: findConsecutiveSlots_def)

text \<open>
  C2: for every array of slot references and every positive count,
  \<open>findConsecutiveSlots\<close> returns the empty array or exactly \<open>slotsNeeded\<close> slots, each
  of them without a task, and each ending at the instant the next one starts.
\<close>

theorem findConsecutiveSlots_contract:
  assumes "0 < slotsNeeded"
  shows "findConsecutiveSlots h slots slotsNeeded = [] \<or>
         (int (length (findConsecutiveSlots h slots slotsNeeded)) = slotsNeeded \<and>
          (\<forall>r\<in>set (findConsecutiveSlots h slots slotsNeeded). task (h ! r) = None) \<and>
          (\<forall>i. Suc i < length (findConsecutiveSlots h slots slotsNeeded) \<longrightarrow>
             endTime (h ! (findConsecutiveSlots h slots slotsNeeded ! i)) =
             startTime (h ! (findConsecutiveSlots h slots slotsNeeded ! Suc i))))"
proof (cases "findConsecutiveSlots h slots slotsNeeded = []")
  case True
  then show ?thesis by simp
next
  case False
  note found = findConsecutiveSlots_found [OF assms False]
  have "endTime (h ! (findConsecutiveSlots h slots slotsNeeded ! i)) =
        startTime (h ! (findConsecutiveSlots h slots slotsNeeded ! Suc i))"
    if "Suc i < length (findConsecutiveSlots h slots slotsNeeded)" for i
    using successively_nth [OF found(3) that] by (simp add: adjacent_def)
  with found(1,2) show ?thesis by blast
qed

theorem findConsecutiveSlots_contract_witness:
  "findConsecutiveSlots
     [\<lparr>startTime = 0, endTime = 1800000, task = Some 0\<rparr>,
      \<lparr>startTime = 1800000, endTime = 3600000, task = None\<rparr>,
      \<lparr>startTime = 3600000, endTime = 5400000, task = None\<rparr>,
      \<lparr>startTime = 86400000, endTime = 88200000, task = None\<rparr>] [0, 1, 2, 3] 2 = [1, 2] \<and>
   int (length (findConsecutiveSlots
     [\<lparr>startTime = 0, endTime = 1800000, task = Some 0\<rparr>,
      \<lparr>startTime = 1800000, endTime = 3600000, task = None\<rparr>,
      \<lparr>startTime = 3600000, endTime = 5400000, task = None\<rparr>,
      \<lparr>startTime = 86400000, endTime = 88200000, task = None\<rparr>] [0, 1, 2, 3] 2)) = 2"
proof -
  let ?h = "[\<lparr>startTime = 0, endTime = 1800000, task = Some 0\<rparr>,
      \<lparr>startTime = 1800000, endTime = 3600000, task = None\<rparr>,
      \<lparr>startTime = 3600000, endTime = 5400000, task = None\<rparr>,
      \<lparr>startTime = 86400000, endTime = 88200000, task = None\<rparr>]"
  have ev: "findConsecutiveSlots ?h [0, 1, 2, 3] 2 = [1, 2]"
    by (simp add: findConsecutiveSlots_def slice0_def)
  have pos: "(0::int) < 2" by simp
  from findConsecutiveSlots_contract [OF pos, of ?h "[0, 1, 2, 3]"] ev
  have "int (length (findConsecutiveSlots ?h [0, 1, 2, 3] 2)) = 2"
    by fastforce
  with ev show ?thesis by blast
qed

section \<open>The slot grid\<close>




lemma slotLoop_all:
  assumes "\<forall>sl\<in>set acc. task sl = None \<and> endTime sl = addMinutes z (startTime sl) slotDuration"
  shows "\<forall>sl\<in>set (slotLoop z acc a b).
           task sl = None \<and> endTime sl = addMinutes z (startTime sl) slotDuration"
  using assms
proof (induction z acc a b rule: slotLoop.induct)
  case (1 z slots slotStart dayEnd)
  show ?case
  proof (cases "slotStart < dayEnd")
    case False
    then show ?thesis using "1.prems" by (simp add: slotLoop.simps [of z slots slotStart])
  next
    case True
    define slotEnd where "slotEnd = addMinutes z slotStart slotDuration"
    define slots' where "slots' = (if slotEnd \<le> dayEnd
                       then slots @ [\<lparr>startTime = slotStart, endTime = slotEnd, task = None\<rparr>]
                       else slots)"
    have "\<forall>sl\<in>set slots'. task sl = None \<and> endTime sl = addMinutes z (startTime sl) slotDuration"
      using "1.prems" by (simp add: slots'_def slotEnd_def)
    from "1.IH" [OF True slotEnd_def slots'_def this]
    show ?thesis
      using True by (simp add: slotLoop.simps [of z slots slotStart] Let_def slotEnd_def slots'_def)
  qed
qed

lemma dayLoop_all:
  assumes "\<forall>sl\<in>set acc. task sl = None \<and> endTime sl = addMinutes z (startTime sl) slotDuration"
  shows "\<forall>sl\<in>set (dayLoop z s n acc cur).
           task sl = None \<and> endTime sl = addMinutes z (startTime sl) slotDuration"
  using assms
proof (induction n arbitrary: acc cur)
  case 0
  then show ?case by simp
next
  case (Suc n)
  show ?case
    using Suc.IH [OF Suc.prems] Suc.IH [OF slotLoop_all [OF Suc.prems]]
    by (simp add: Let_def)
qed

lemma generateTimeSlots_slots:
  "sl \<in> set (generateTimeSlots z s startDate n) \<Longrightarrow>
   task sl = None \<and> endTime sl = addMinutes z (startTime sl) slotDuration"
  using dayLoop_all [of "[]" z s "nat n" "startOfDay z startDate"]
  by (simp add: generateTimeSlots_def)

lemma dayLoop_no_working_days:
  "workingDays s = [] \<Longrightarrow> dayLoop z s n acc cur = acc"
  by (induction n arbitrary: cur) simp_all

lemma generateTimeSlots_no_working_days:
  "workingDays settings = [] \<Longrightarrow> generateTimeSlots z settings startDate daysToSchedule = []"
  by (simp add: generateTimeSlots_def dayLoop_no_working_days)

text \<open>While the offset does not change, the accessors are linear.\<close>

lemma steady_LocalTime: "steady z off lo hi \<Longrightarrow> lo \<le> t \<Longrightarrow> t \<le> hi \<Longrightarrow> LocalTime z t = t + off"
  by (simp add: steady_def LocalTime_def)


lemma steady_sub: "steady z off lo hi \<Longrightarrow> lo \<le> lo' \<Longrightarrow> hi' \<le> hi \<Longrightarrow> steady z off lo' hi'"
  by (simp add: steady_def)




lemma steady_getDay:
  assumes "steady z off lo hi" and "lo \<le> t" and "t \<le> hi"
  shows "getDay z t = ((t + off) div msPerDay + 4) mod 7"
  using assms by (simp add: getDay_def steady_LocalTime)













section \<open>Assigning a task to slots\<close>

lemma length_markSlots: "length (markSlots t rs h) = length h"
  unfolding markSlots_def by (induction rs arbitrary: h) auto

lemma nth_markSlots:
  "i < length h \<Longrightarrow>
   markSlots t rs h ! i = (if i \<in> set rs then (h ! i)\<lparr>task := Some t\<rparr> else h ! i)"
  unfolding markSlots_def
proof (induction rs arbitrary: h)
  case Nil
  then show ?case by simp
next
  case (Cons r rs)
  define h1 where "h1 = h[r := (h ! r)\<lparr>task := Some t\<rparr>]"
  have len: "i < length h1" using Cons.prems by (simp add: h1_def)
  have h1: "h1 ! i = (if i = r then (h ! i)\<lparr>task := Some t\<rparr> else h ! i)"
    using Cons.prems by (simp add: h1_def nth_list_update)
  have "fold (\<lambda>r h. h[r := (h ! r)\<lparr>task := Some t\<rparr>]) (r # rs) h ! i =
        fold (\<lambda>r h. h[r := (h ! r)\<lparr>task := Some t\<rparr>]) rs h1 ! i"
    by (simp add: h1_def)
  also have "\<dots> = (if i \<in> set rs then (h1 ! i)\<lparr>task := Some t\<rparr> else h1 ! i)"
    by (rule Cons.IH [OF len])
  also have "\<dots> = (if i \<in> set (r # rs) then (h ! i)\<lparr>task := Some t\<rparr> else h ! i)"
    using h1 by auto
  finally show ?case .
qed

lemma slotsOf_card: "slotsOf j h = card {i. i < length h \<and> task (h ! i) = Some j}"
  by (simp add: slotsOf_def length_filter_conv_card)

lemma slotsOf_markSlots:
  assumes "distinct rs" and "\<forall>r\<in>set rs. r < length h \<and> task (h ! r) = None"
  shows "slotsOf j (markSlots t rs h) = slotsOf j h + (if j = t then length rs else 0)"
proof -
  let ?A = "{i. i < length h \<and> task (h ! i) = Some j}"
  have eq: "{i. i < length (markSlots t rs h) \<and> task (markSlots t rs h ! i) = Some j}
            = (if j = t then ?A \<union> set rs else ?A)"
    using assms(2) by (auto simp: length_markSlots nth_markSlots split: if_splits)
  have fin: "finite ?A" by simp
  have disj: "?A \<inter> set rs = {}" using assms(2) by auto
  have "card (?A \<union> set rs) = card ?A + length rs"
    using card_Un_disjoint [OF fin _ disj] distinct_card [OF assms(1)] by simp
  then show ?thesis unfolding slotsOf_card eq by (cases "j = t") simp_all
qed

lemma findLoop_nonpos: "n \<le> 0 \<Longrightarrow> findLoop h n [] lst rs = []"
  by (induction rs arbitrary: lst) (auto simp: Let_def slice0_def)

lemma findConsecutiveSlots_nonpos: "n \<le> 0 \<Longrightarrow> findConsecutiveSlots h slots n = []"
  by (simp add: findConsecutiveSlots_def findLoop_nonpos)

lemma freeBlockD:
  assumes "freeBlock h rs"
  shows "rs \<noteq> []" and "distinct rs" and "\<forall>r\<in>set rs. r < length h \<and> task (h ! r) = None"
    and "successively (adjacent h) rs" and "hd rs < length h"
  using assms by (auto simp: freeBlock_def list_all_iff)

lemma assignTaskToSlots_empty: "assignTaskToSlots t [] st = Inl TypeError"
  by (simp add: assignTaskToSlots_def)

lemma assignTaskToSlots_block:
  assumes "freeBlock (availableSlots st) rs"
  shows "assignTaskToSlots t rs st = Inr (placeOn t rs st)"
proof -
  from freeBlockD [OF assms] obtain r0 rs' where rs: "rs = r0 # rs'" and r0: "r0 < length (availableSlots st)"
    by (cases rs) auto
  show ?thesis
    using r0 by (simp add: assignTaskToSlots_def placeOn_def rs nth_markSlots)
qed

text \<open>What a found block is, for a search over references into the heap.\<close>

lemma found_freeBlock:
  assumes "0 < n" and "distinct slots" and "\<forall>r\<in>set slots. r < length h"
    and "int (length (findConsecutiveSlots h slots n)) \<ge> n"
  shows "freeBlock h (findConsecutiveSlots h slots n)"
    and "int (length (findConsecutiveSlots h slots n)) = n"
    and "set (findConsecutiveSlots h slots n) \<subseteq> set slots"
proof -
  have ne: "findConsecutiveSlots h slots n \<noteq> []" using assms(1,4) by auto
  note found = findConsecutiveSlots_found [OF assms(1) ne]
  show "freeBlock h (findConsecutiveSlots h slots n)"
    using ne found assms(3) findConsecutiveSlots_distinct [OF assms(1,2)]
    by (auto simp: freeBlock_def list_all_iff)
  show "int (length (findConsecutiveSlots h slots n)) = n" by (rule found(1))
  show "set (findConsecutiveSlots h slots n) \<subseteq> set slots" by (rule found(4))
qed

lemma scheduleTaskAnywhere_cases:
  assumes "scheduleTaskAnywhere t st = Inr (ok, st')"
  obtains (unplaced) "\<not> ok" and "st' = st"
  | (placed) rs where "ok" and "freeBlock (availableSlots st) rs"
      and "int (length rs) = slotsNeededFor (timeEstimate (sortedTasks st ! t))"
      and "st' = placeOn t rs st"
proof -
  define n where "n = slotsNeededFor (timeEstimate (sortedTasks st ! t))"
  define rs where "rs = findConsecutiveSlots (availableSlots st) [0..<length (availableSlots st)] n"
  show thesis
  proof (cases "int (length rs) \<ge> n")
    case False
    then have "\<not> ok \<and> st' = st"
      using assms by (simp add: scheduleTaskAnywhere_def Let_def n_def rs_def)
    then show thesis using unplaced by blast
  next
    case True
    have pos: "0 < n"
    proof (rule ccontr)
      assume "\<not> 0 < n"
      then have "rs = []" by (simp add: rs_def findConsecutiveSlots_nonpos)
      with True assms show False
        by (simp add: scheduleTaskAnywhere_def Let_def n_def [symmetric] rs_def [symmetric]
            assignTaskToSlots_empty)
    qed
    have blk: "freeBlock (availableSlots st) rs" and len: "int (length rs) = n"
      using found_freeBlock(1,2) [OF pos, of "[0..<length (availableSlots st)]" "availableSlots st"] True
      by (simp_all add: rs_def)
    have "ok \<and> st' = placeOn t rs st"
      using assms True
      by (auto simp: scheduleTaskAnywhere_def Let_def n_def [symmetric] rs_def [symmetric]
          assignTaskToSlots_block [OF blk])
    with blk len show thesis using placed by (simp add: n_def)
  qed
qed

lemma scheduleTaskWithDeadline_cases:
  assumes "scheduleTaskWithDeadline t st = Inr (ok, st')"
  obtains (unplaced) "\<not> ok" and "st' = st"
  | (placed) rs d where "ok" and "freeBlock (availableSlots st) rs"
      and "int (length rs) = slotsNeededFor (timeEstimate (sortedTasks st ! t))"
      and "st' = placeOn t rs st"
      and "deadline (sortedTasks st ! t) = Some d"
      and "\<forall>r\<in>set rs. endTime (availableSlots st ! r) \<le> d"
proof (cases "deadline (sortedTasks st ! t)")
  case None
  then have "\<not> ok \<and> st' = st"
    using assms by (simp add: scheduleTaskWithDeadline_def)
  then show thesis using unplaced by blast
next
  case (Some d)
  define n where "n = slotsNeededFor (timeEstimate (sortedTasks st ! t))"
  define ds where "ds = filter (\<lambda>i. task (availableSlots st ! i) = None \<and> endTime (availableSlots st ! i) \<le> d)
                   [0..<length (availableSlots st)]"
  define rs where "rs = findConsecutiveSlots (availableSlots st) ds n"
  have eq: "scheduleTaskWithDeadline t st =
     (if ds = [] then Inr (False, st)
      else if int (length rs) \<ge> n
           then (case assignTaskToSlots t rs st of Inl e \<Rightarrow> Inl e | Inr st' \<Rightarrow> Inr (True, st'))
           else Inr (False, st))"
    using Some by (simp add: scheduleTaskWithDeadline_def Let_def n_def ds_def rs_def)
  show thesis
  proof (cases "ds \<noteq> [] \<and> int (length rs) \<ge> n")
    case False
    then have "\<not> ok \<and> st' = st"
      using assms unfolding eq by (auto split: if_splits)
    then show thesis using unplaced by blast
  next
    case True
    have pos: "0 < n"
    proof (rule ccontr)
      assume "\<not> 0 < n"
      then have "rs = []" by (simp add: rs_def findConsecutiveSlots_nonpos)
      with True assms show False
        unfolding eq by (simp add: assignTaskToSlots_empty)
    qed
    have dist: "distinct ds" and rng: "\<forall>r\<in>set ds. r < length (availableSlots st)"
      by (auto simp: ds_def)
    have blk: "freeBlock (availableSlots st) rs" and len: "int (length rs) = n"
      and sub: "set rs \<subseteq> set ds"
      using found_freeBlock [OF pos dist rng] True by (simp_all add: rs_def)
    have before: "\<forall>r\<in>set rs. endTime (availableSlots st ! r) \<le> d"
      using sub by (auto simp: ds_def)
    have "ok \<and> st' = placeOn t rs st"
      using assms True unfolding eq by (auto simp: assignTaskToSlots_block [OF blk])
    with blk len Some before show thesis using placed by (simp add: n_def)
  qed
qed

section \<open>Placing one task\<close>


lemma slotsNeededFor_ceiling: "slotsNeededFor te = \<lceil>real_of_int te / 30\<rceil>"
  unfolding slotsNeededFor_def
  by (simp add: ceiling_def floor_divide_of_int_eq [where ?'a = real, symmetric] )


lemma placeOn_task:
  assumes "t < length (sortedTasks st)"
  shows "sortedTasks (placeOn t rs st) ! t =
         (sortedTasks st ! t)\<lparr>scheduledTime := Some (startTime (availableSlots st ! hd rs))\<rparr>"
  using assms by (simp add: placeOn_def)



section \<open>The two passes\<close>

lemma placeOn_slots:
  assumes "freeBlock (availableSlots st) rs"
  shows "length (availableSlots (placeOn t rs st)) = length (availableSlots st)"
    and "\<And>i. i < length (availableSlots st) \<Longrightarrow>
           startTime (availableSlots (placeOn t rs st) ! i) = startTime (availableSlots st ! i) \<and>
           endTime (availableSlots (placeOn t rs st) ! i) = endTime (availableSlots st ! i)"
    and "\<And>i. i < length (availableSlots st) \<Longrightarrow> task (availableSlots st ! i) \<noteq> None \<Longrightarrow>
           task (availableSlots (placeOn t rs st) ! i) = task (availableSlots st ! i)"
    and "\<And>j. slotsOf j (availableSlots (placeOn t rs st)) =
           slotsOf j (availableSlots st) + (if j = t then length rs else 0)"
proof -
  note blk = freeBlockD [OF assms]
  show "length (availableSlots (placeOn t rs st)) = length (availableSlots st)"
    by (simp add: placeOn_def length_markSlots)
  show "startTime (availableSlots (placeOn t rs st) ! i) = startTime (availableSlots st ! i) \<and>
        endTime (availableSlots (placeOn t rs st) ! i) = endTime (availableSlots st ! i)"
    if "i < length (availableSlots st)" for i
    using that by (simp add: placeOn_def nth_markSlots)
  show "task (availableSlots (placeOn t rs st) ! i) = task (availableSlots st ! i)"
    if "i < length (availableSlots st)" "task (availableSlots st ! i) \<noteq> None" for i
    using that blk(3) by (auto simp: placeOn_def nth_markSlots)
  show "slotsOf j (availableSlots (placeOn t rs st)) =
        slotsOf j (availableSlots st) + (if j = t then length rs else 0)" for j
    using slotsOf_markSlots [OF blk(2) blk(3)] by (simp add: placeOn_def)
qed

lemma placeOn_tasks:
  shows "length (sortedTasks (placeOn t rs st)) = length (sortedTasks st)"
    and "j \<noteq> t \<Longrightarrow> sortedTasks (placeOn t rs st) ! j = sortedTasks st ! j"
  by (simp_all add: placeOn_def)

lemma grows_refl: "grows st st"
  by (simp add: grows_def)

lemma grows_trans:
  assumes "grows st st'" and "grows st' st''"
  shows "grows st st''"
  using assms unfolding grows_def by (intro conjI allI impI) (simp, simp, metis, metis)

lemma grows_placeOn:
  assumes "freeBlock (availableSlots st) rs" and "t < length (sortedTasks st)"
  shows "grows st (placeOn t rs st)"
proof -
  have "scheduledTime (sortedTasks (placeOn t rs st) ! j) = scheduledTime (sortedTasks st ! j) \<or>
        scheduledTime (sortedTasks (placeOn t rs st) ! j) \<noteq> None" for j
    using assms(2) by (cases "j = t") (simp_all add: placeOn_tasks placeOn_task)
  then show ?thesis
    using placeOn_slots(1,3) [OF assms(1)] by (simp add: grows_def placeOn_tasks)
qed

text \<open>One iteration of either loop, when it does not throw.\<close>

lemma firstPass_step:
  assumes "firstPass (t # ts) st = Inr st'"
  obtains (same) "firstPass ts st = Inr st'"
  | (placed) rs where "freeBlock (availableSlots st) rs"
      and "int (length rs) = slotsNeededFor (timeEstimate (sortedTasks st ! t))"
      and "firstPass ts (placeOn t rs st) = Inr st'"
proof (cases "deadline (sortedTasks st ! t) \<noteq> None")
  case False
  then show thesis using assms same by simp
next
  case True
  then obtain ok st1 where step: "scheduleTaskWithDeadline t st = Inr (ok, st1)"
    and rest: "firstPass ts st1 = Inr st'"
    using assms by (auto split: sum.splits)
  from step show thesis
  proof (cases rule: scheduleTaskWithDeadline_cases)
    case unplaced
    then show ?thesis using rest same by simp
  next
    case (placed rs d)
    then show ?thesis using rest that(2) by simp
  qed
qed

lemma secondPass_step:
  assumes "secondPass (t # ts) st = Inr st'"
  obtains (same) "secondPass ts st = Inr st'"
  | (placed) rs where "scheduledTime (sortedTasks st ! t) = None"
      and "freeBlock (availableSlots st) rs"
      and "int (length rs) = slotsNeededFor (timeEstimate (sortedTasks st ! t))"
      and "secondPass ts (placeOn t rs st) = Inr st'"
proof (cases "scheduledTime (sortedTasks st ! t) = None")
  case False
  then show thesis using assms same by auto
next
  case True
  then obtain ok st1 where step: "scheduleTaskAnywhere t st = Inr (ok, st1)"
    and rest: "secondPass ts st1 = Inr st'"
    using assms by (auto split: sum.splits)
  from step show thesis
  proof (cases rule: scheduleTaskAnywhere_cases)
    case unplaced
    then show ?thesis using rest same by simp
  next
    case (placed rs)
    then show ?thesis using rest True that(2) by simp
  qed
qed

lemma firstPass_append:
  "firstPass (xs @ ys) st =
     (case firstPass xs st of Inl e \<Rightarrow> Inl e | Inr st1 \<Rightarrow> firstPass ys st1)"
  by (induction xs arbitrary: st) (auto split: sum.splits)

lemma secondPass_append:
  "secondPass (xs @ ys) st =
     (case secondPass xs st of Inl e \<Rightarrow> Inl e | Inr st1 \<Rightarrow> secondPass ys st1)"
  by (induction xs arbitrary: st) (auto split: sum.splits)

lemma firstPass_grows:
  assumes "firstPass ts st = Inr st'" and "\<forall>t\<in>set ts. t < length (sortedTasks st)"
  shows "grows st st' \<and> (\<forall>j. j \<notin> set ts \<longrightarrow> sortedTasks st' ! j = sortedTasks st ! j)"
  using assms
proof (induction ts arbitrary: st)
  case Nil
  then show ?case by (simp add: grows_refl)
next
  case (Cons t ts)
  from Cons.prems(1) show ?case
  proof (cases rule: firstPass_step)
    case same
    then show ?thesis using Cons.IH [of st] Cons.prems(2) by simp
  next
    case (placed rs)
    let ?st1 = "placeOn t rs st"
    have t: "t < length (sortedTasks st)" using Cons.prems(2) by simp
    have g1: "grows st ?st1" by (rule grows_placeOn [OF placed(1) t])
    have "\<forall>t\<in>set ts. t < length (sortedTasks ?st1)"
      using Cons.prems(2) by (simp add: placeOn_tasks)
    from Cons.IH [OF placed(3) this]
    have g2: "grows ?st1 st'"
      and o2: "\<And>j. j \<notin> set ts \<Longrightarrow> sortedTasks st' ! j = sortedTasks ?st1 ! j" by simp_all
    have "sortedTasks st' ! j = sortedTasks st ! j" if "j \<notin> set (t # ts)" for j
      using that o2 [of j] by (simp add: placeOn_tasks)
    with grows_trans [OF g1 g2] show ?thesis by blast
  qed
qed

lemma secondPass_grows:
  assumes "secondPass ts st = Inr st'" and "\<forall>t\<in>set ts. t < length (sortedTasks st)"
  shows "grows st st' \<and>
         (\<forall>j. scheduledTime (sortedTasks st ! j) \<noteq> None \<longrightarrow> sortedTasks st' ! j = sortedTasks st ! j)"
  using assms
proof (induction ts arbitrary: st)
  case Nil
  then show ?case by (simp add: grows_refl)
next
  case (Cons t ts)
  from Cons.prems(1) show ?case
  proof (cases rule: secondPass_step)
    case same
    then show ?thesis using Cons.IH [of st] Cons.prems(2) by simp
  next
    case (placed rs)
    let ?st1 = "placeOn t rs st"
    have t: "t < length (sortedTasks st)" using Cons.prems(2) by simp
    have g1: "grows st ?st1" by (rule grows_placeOn [OF placed(2) t])
    have "\<forall>t\<in>set ts. t < length (sortedTasks ?st1)"
      using Cons.prems(2) by (simp add: placeOn_tasks)
    from Cons.IH [OF placed(4) this]
    have g2: "grows ?st1 st'"
      and o2: "\<And>j. scheduledTime (sortedTasks ?st1 ! j) \<noteq> None \<Longrightarrow>
                 sortedTasks st' ! j = sortedTasks ?st1 ! j" by simp_all
    have "sortedTasks st' ! j = sortedTasks st ! j"
      if "scheduledTime (sortedTasks st ! j) \<noteq> None" for j
    proof -
      have "j \<noteq> t" using that placed(1) by auto
      then have "sortedTasks ?st1 ! j = sortedTasks st ! j" by (simp add: placeOn_tasks)
      with that o2 [of j] show ?thesis by simp
    qed
    with grows_trans [OF g1 g2] show ?thesis by blast
  qed
qed

lemma settled_placeOn:
  assumes "settled ts0 st" and "t < length ts0" and "slotsOf t (availableSlots st) = 0"
    and "freeBlock (availableSlots st) rs"
    and "int (length rs) = slotsNeededFor (timeEstimate (sortedTasks st ! t))"
  shows "settled ts0 (placeOn t rs st)"
proof -
  have len: "length (sortedTasks st) = length ts0" using assms(1) by (simp add: settled_def)
  have tl: "t < length (sortedTasks st)" using assms(2) len by simp
  have te: "timeEstimate (sortedTasks st ! t) = timeEstimate (ts0 ! t)"
    using assms(1,2) by (simp add: settled_def)
  have "timeEstimate (sortedTasks (placeOn t rs st) ! j) = timeEstimate (ts0 ! j) \<and>
         (scheduledTime (sortedTasks (placeOn t rs st) ! j) = scheduledTime (ts0 ! j) \<and>
            slotsOf j (availableSlots (placeOn t rs st)) = 0 \<or>
          scheduledTime (sortedTasks (placeOn t rs st) ! j) \<noteq> None \<and>
            int (slotsOf j (availableSlots (placeOn t rs st))) = slotsNeededFor (timeEstimate (ts0 ! j)))"
    if j: "j < length ts0" for j
  proof (cases "j = t")
    case True
    then show ?thesis
      using assms(3,5) te by (simp add: placeOn_task [OF tl] placeOn_slots(4) [OF assms(4)])
  next
    case False
    then show ?thesis
      using assms(1) j by (simp add: settled_def placeOn_tasks placeOn_slots(4) [OF assms(4)])
  qed
  then show ?thesis by (simp add: settled_def placeOn_tasks len)
qed

lemma firstPass_settled:
  assumes "firstPass ts st = Inr st'" and "settled ts0 st" and "distinct ts"
    and "\<forall>t\<in>set ts. t < length ts0 \<and> slotsOf t (availableSlots st) = 0"
  shows "settled ts0 st'"
  using assms
proof (induction ts arbitrary: st)
  case Nil
  then show ?case by simp
next
  case (Cons t ts)
  from Cons.prems(1) show ?case
  proof (cases rule: firstPass_step)
    case same
    then show ?thesis using Cons.IH [of st] Cons.prems by simp
  next
    case (placed rs)
    let ?st1 = "placeOn t rs st"
    have s1: "settled ts0 ?st1"
      using settled_placeOn [OF Cons.prems(2) _ _ placed(1,2)] Cons.prems(4) by simp
    have "\<forall>t'\<in>set ts. t' < length ts0 \<and> slotsOf t' (availableSlots ?st1) = 0"
      using Cons.prems(3,4) by (auto simp: placeOn_slots(4) [OF placed(1)])
    from Cons.IH [OF placed(3) s1 _ this] Cons.prems(3) show ?thesis by simp
  qed
qed

lemma secondPass_settled:
  assumes "secondPass ts st = Inr st'" and "settled ts0 st" and "\<forall>t\<in>set ts. t < length ts0"
  shows "settled ts0 st'"
  using assms
proof (induction ts arbitrary: st)
  case Nil
  then show ?case by simp
next
  case (Cons t ts)
  from Cons.prems(1) show ?case
  proof (cases rule: secondPass_step)
    case same
    then show ?thesis using Cons.IH [of st] Cons.prems by simp
  next
    case (placed rs)
    let ?st1 = "placeOn t rs st"
    have t: "t < length ts0" using Cons.prems(3) by simp
    have "slotsOf t (availableSlots st) = 0"
      using Cons.prems(2) t placed(1) by (auto simp: settled_def)
    from settled_placeOn [OF Cons.prems(2) t this placed(2,3)]
    have s1: "settled ts0 ?st1" .
    from Cons.IH [OF placed(4) s1] Cons.prems(3) show ?thesis by simp
  qed
qed

lemma firstPass_segment:
  assumes "firstPass [0..<l] st0 = Inr sl" and "k \<le> l" and "l \<le> length (sortedTasks st0)"
  obtains sk where "firstPass [0..<k] st0 = Inr sk" and "firstPass [k..<l] sk = Inr sl"
    and "grows st0 sk" and "grows sk sl"
    and "\<forall>j. k \<le> j \<longrightarrow> sortedTasks sk ! j = sortedTasks st0 ! j"
    and "\<forall>j. j < k \<longrightarrow> sortedTasks sl ! j = sortedTasks sk ! j"
proof -
  have split: "[0..<l] = [0..<k] @ [k..<l]"
    using upt_add_eq_append [of 0 k "l - k"] assms(2) by simp
  from assms(1) obtain sk where sk: "firstPass [0..<k] st0 = Inr sk"
    and sl: "firstPass [k..<l] sk = Inr sl"
    unfolding split firstPass_append by (auto split: sum.splits)
  have r0: "\<forall>t\<in>set [0..<k]. t < length (sortedTasks st0)"
    using assms(2,3) by simp
  note a = firstPass_grows [OF sk r0]
  then have len: "length (sortedTasks sk) = length (sortedTasks st0)"
    by (simp add: grows_def)
  have r1: "\<forall>t\<in>set [k..<l]. t < length (sortedTasks sk)"
    using assms(3) len by simp
  note b = firstPass_grows [OF sl r1]
  show thesis
    using that [OF sk sl] a b by simp
qed

lemma secondPass_segment:
  assumes "secondPass [0..<l] st0 = Inr sl" and "k \<le> l" and "l \<le> length (sortedTasks st0)"
  obtains sk where "secondPass [0..<k] st0 = Inr sk" and "secondPass [k..<l] sk = Inr sl"
    and "grows st0 sk" and "grows sk sl"
    and "\<forall>j. scheduledTime (sortedTasks sk ! j) \<noteq> None \<longrightarrow> sortedTasks sl ! j = sortedTasks sk ! j"
proof -
  have split: "[0..<l] = [0..<k] @ [k..<l]"
    using upt_add_eq_append [of 0 k "l - k"] assms(2) by simp
  from assms(1) obtain sk where sk: "secondPass [0..<k] st0 = Inr sk"
    and sl: "secondPass [k..<l] sk = Inr sl"
    unfolding split secondPass_append by (auto split: sum.splits)
  have r0: "\<forall>t\<in>set [0..<k]. t < length (sortedTasks st0)"
    using assms(2,3) by simp
  note a = secondPass_grows [OF sk r0]
  then have len: "length (sortedTasks sk) = length (sortedTasks st0)"
    by (simp add: grows_def)
  have r1: "\<forall>t\<in>set [k..<l]. t < length (sortedTasks sk)"
    using assms(3) len by simp
  note b = secondPass_grows [OF sl r1]
  show thesis
    using that [OF sk sl] a b by simp
qed

lemma grows_changed_defined:
  assumes "grows st st'" and "j < length (sortedTasks st)"
    and "scheduledTime (sortedTasks st' ! j) \<noteq> scheduledTime (sortedTasks st ! j)"
  shows "scheduledTime (sortedTasks st' ! j) \<noteq> None"
  using assms by (auto simp: grows_def)

text \<open>
  Between two states of one run: an earlier state exists whenever a later one does, the
  later grows out of it, and a \<open>scheduledTime\<close> that the run had written by the earlier
  state is the same in the later one.
\<close>

lemma placeUpTo_between:
  assumes "placeUpTo l slots tasks = Inr sl" and "k \<le> l" and "l \<le> 2 * length tasks"
  obtains sk where "placeUpTo k slots tasks = Inr sk" and "grows sk sl"
    and "grows \<lparr>availableSlots = slots, sortedTasks = tasks\<rparr> sk"
    and "\<forall>j<length tasks. scheduledTime (sortedTasks sk ! j) \<noteq> scheduledTime (tasks ! j) \<longrightarrow>
           scheduledTime (sortedTasks sl ! j) = scheduledTime (sortedTasks sk ! j)"
proof -
  let ?st0 = "\<lparr>availableSlots = slots, sortedTasks = tasks\<rparr>"
  let ?n = "length tasks"
  consider (first) "l \<le> ?n" | (across) "k \<le> ?n" "?n < l" | (second) "?n < k"
    using assms(2) by linarith
  then show thesis
  proof cases
    case first
    then have run: "firstPass [0..<l] ?st0 = Inr sl" using assms(1) by (simp add: placeUpTo_def)
    have bound: "l \<le> length (sortedTasks ?st0)" using first by simp
    obtain sk where sk: "firstPass [0..<k] ?st0 = Inr sk"
      and g0: "grows ?st0 sk" and g: "grows sk sl"
      and hi: "\<forall>j. k \<le> j \<longrightarrow> sortedTasks sk ! j = sortedTasks ?st0 ! j"
      and lo: "\<forall>j. j < k \<longrightarrow> sortedTasks sl ! j = sortedTasks sk ! j"
      by (rule firstPass_segment [OF run assms(2) bound]) blast
    have "scheduledTime (sortedTasks sl ! j) = scheduledTime (sortedTasks sk ! j)"
      if "scheduledTime (sortedTasks sk ! j) \<noteq> scheduledTime (tasks ! j)" for j
    proof -
      have "j < k" using that hi by (cases "j < k") auto
      with lo show ?thesis by simp
    qed
    moreover have "placeUpTo k slots tasks = Inr sk"
      using sk assms(2) first by (simp add: placeUpTo_def)
    ultimately show ?thesis using that g g0 by blast
  next
    case across
    from assms(1) across obtain sn where sn: "firstPass [0..<?n] ?st0 = Inr sn"
      and sl: "secondPass [0..<l - ?n] sn = Inr sl"
      by (auto simp: placeUpTo_def split: sum.splits)
    have bound: "?n \<le> length (sortedTasks ?st0)" by simp
    obtain sk where sk: "firstPass [0..<k] ?st0 = Inr sk"
      and g0: "grows ?st0 sk" and g1: "grows sk sn"
      and hi: "\<forall>j. k \<le> j \<longrightarrow> sortedTasks sk ! j = sortedTasks ?st0 ! j"
      and lo: "\<forall>j. j < k \<longrightarrow> sortedTasks sn ! j = sortedTasks sk ! j"
      by (rule firstPass_segment [OF sn across(1) bound]) blast
    have lenn: "length (sortedTasks sn) = ?n"
      using g0 g1 by (simp add: grows_def)
    have "\<forall>t\<in>set [0..<l - ?n]. t < length (sortedTasks sn)"
      using assms(3) lenn by auto
    note b = secondPass_grows [OF sl this]
    have "scheduledTime (sortedTasks sl ! j) = scheduledTime (sortedTasks sk ! j)"
      if j: "j < ?n" and ch: "scheduledTime (sortedTasks sk ! j) \<noteq> scheduledTime (tasks ! j)" for j
    proof -
      have "j < k" using ch hi by (cases "j < k") auto
      then have eq: "sortedTasks sn ! j = sortedTasks sk ! j" using lo by simp
      have "scheduledTime (sortedTasks sk ! j) \<noteq> None"
        using grows_changed_defined [OF g0, of j] j ch by simp
      with eq b show ?thesis by simp
    qed
    moreover have "placeUpTo k slots tasks = Inr sk"
      using sk across by (simp add: placeUpTo_def)
    moreover have "grows sk sl" using grows_trans [OF g1] b by blast
    ultimately show ?thesis using that g0 by blast
  next
    case second
    from assms(1,2) second obtain sn where sn: "firstPass [0..<?n] ?st0 = Inr sn"
      and sl: "secondPass [0..<l - ?n] sn = Inr sl"
      by (auto simp: placeUpTo_def split: sum.splits)
    have "\<forall>t\<in>set [0..<?n]. t < length (sortedTasks ?st0)" by simp
    note a = firstPass_grows [OF sn this]
    then have lenn: "length (sortedTasks sn) = ?n" by (simp add: grows_def)
    have kl: "k - ?n \<le> l - ?n" and bound: "l - ?n \<le> length (sortedTasks sn)"
      using assms(2,3) lenn by simp_all
    obtain sk where sk: "secondPass [0..<k - ?n] sn = Inr sk"
      and g1: "grows sn sk" and g2: "grows sk sl"
      and keep: "\<forall>j. scheduledTime (sortedTasks sk ! j) \<noteq> None \<longrightarrow>
                   sortedTasks sl ! j = sortedTasks sk ! j"
      by (rule secondPass_segment [OF sl kl bound]) blast
    have g0: "grows ?st0 sk" using grows_trans [OF _ g1] a by blast
    have "scheduledTime (sortedTasks sl ! j) = scheduledTime (sortedTasks sk ! j)"
      if j: "j < ?n" and ch: "scheduledTime (sortedTasks sk ! j) \<noteq> scheduledTime (tasks ! j)" for j
    proof -
      have "scheduledTime (sortedTasks sk ! j) \<noteq> None"
        using grows_changed_defined [OF g0, of j] j ch by simp
      with keep show ?thesis by simp
    qed
    moreover have "placeUpTo k slots tasks = Inr sk"
      using sk sn second by (simp add: placeUpTo_def)
    ultimately show ?thesis using that g0 g2 by blast
  qed
qed

lemma placeUpTo_all: "placeUpTo (2 * length tasks) slots tasks = placeTasks slots tasks"
  by (cases "length tasks = 0") (simp_all add: placeUpTo_def placeTasks_def split: sum.splits)

lemma scheduleTasksUpTo_all:
  "scheduleTasksUpTo (2 * length tasks) z now settings tasks startDate daysToSchedule =
   scheduleTasks z now settings tasks startDate daysToSchedule"
  using placeUpTo_all [of "sortTasksByPriority now tasks"]
  by (simp add: scheduleTasksUpTo_def scheduleTasks_def length_sortTasksByPriority)

section \<open>The whole run\<close>

lemma slotsOf_generated: "slotsOf j (generateTimeSlots z settings startDate daysToSchedule) = 0"
  using generateTimeSlots_slots [of _ z settings startDate daysToSchedule]
  by (auto simp: slotsOf_def filter_empty_conv)

lemma settled_initial:
  assumes "\<forall>j<length tasks. slotsOf j slots = 0"
  shows "settled tasks \<lparr>availableSlots = slots, sortedTasks = tasks\<rparr>"
  using assms by (simp add: settled_def)

lemma placeTasks_settled:
  assumes "placeTasks slots tasks = Inr st" and "\<forall>j<length tasks. slotsOf j slots = 0"
  shows "settled tasks st"
proof -
  let ?st0 = "\<lparr>availableSlots = slots, sortedTasks = tasks\<rparr>"
  from assms(1) obtain sn where sn: "firstPass [0..<length tasks] ?st0 = Inr sn"
    and st: "secondPass [0..<length tasks] sn = Inr st"
    by (auto simp: placeTasks_def split: sum.splits)
  have "settled tasks sn"
    using firstPass_settled [OF sn settled_initial [OF assms(2)]] assms(2) by simp
  from secondPass_settled [OF st this] show ?thesis by simp
qed

text \<open>
  C3: in a run of \<open>scheduleTasks\<close> that completes, a slot that names a task at one
  point of the run names the same task at every later point, so no slot is ever given
  to two different tasks; and in the final state every task whose \<open>scheduledTime\<close> the
  run has set is the task of exactly \<open>ceil (timeEstimate / 30)\<close> slots.
\<close>

theorem placement_conservation:
  assumes "scheduleTasks z now settings tasks startDate daysToSchedule = Inr st"
  shows "(\<forall>k l. k \<le> l \<and> l \<le> 2 * length tasks \<longrightarrow>
            (\<exists>sk sl. scheduleTasksUpTo k z now settings tasks startDate daysToSchedule = Inr sk \<and>
                     scheduleTasksUpTo l z now settings tasks startDate daysToSchedule = Inr sl \<and>
                     (\<forall>i<length (availableSlots sk). \<forall>t.
                        task (availableSlots sk ! i) = Some t \<longrightarrow>
                        task (availableSlots sl ! i) = Some t)))
         \<and> (\<forall>j<length tasks.
               scheduledTime (sortedTasks st ! j) \<noteq> scheduledTime (sortTasksByPriority now tasks ! j) \<longrightarrow>
               int (slotsOf j (availableSlots st)) = \<lceil>real_of_int (timeEstimate (sortedTasks st ! j)) / 30\<rceil>)"
proof -
  let ?grid = "generateTimeSlots z settings startDate daysToSchedule"
  let ?sorted = "sortTasksByPriority now tasks"
  have n: "length ?sorted = length tasks" by (rule length_sortTasksByPriority)
  have full: "placeUpTo (2 * length ?sorted) ?grid ?sorted = Inr st"
    using assms by (simp add: placeUpTo_all scheduleTasks_def)
  have once: "\<exists>sk sl. scheduleTasksUpTo k z now settings tasks startDate daysToSchedule = Inr sk \<and>
                     scheduleTasksUpTo l z now settings tasks startDate daysToSchedule = Inr sl \<and>
                     (\<forall>i<length (availableSlots sk). \<forall>t.
                        task (availableSlots sk ! i) = Some t \<longrightarrow>
                        task (availableSlots sl ! i) = Some t)"
    if kl: "k \<le> l" and l: "l \<le> 2 * length tasks" for k l
  proof -
    have l2: "l \<le> 2 * length ?sorted" using l n by simp
    obtain sl where sl: "placeUpTo l ?grid ?sorted = Inr sl"
      by (rule placeUpTo_between [OF full l2 order_refl]) blast
    obtain sk where sk: "placeUpTo k ?grid ?sorted = Inr sk" and g: "grows sk sl"
      by (rule placeUpTo_between [OF sl kl l2]) blast
    from g have "\<forall>i<length (availableSlots sk). \<forall>t.
                        task (availableSlots sk ! i) = Some t \<longrightarrow>
                        task (availableSlots sl ! i) = Some t"
      by (simp add: grows_def)
    with sk sl show ?thesis by (simp add: scheduleTasksUpTo_def)
  qed
  have "placeTasks ?grid ?sorted = Inr st" using assms by (simp add: scheduleTasks_def)
  then have s: "settled ?sorted st"
    by (rule placeTasks_settled) (simp add: slotsOf_generated)
  have count: "int (slotsOf j (availableSlots st)) = \<lceil>real_of_int (timeEstimate (sortedTasks st ! j)) / 30\<rceil>"
    if "j < length tasks"
      "scheduledTime (sortedTasks st ! j) \<noteq> scheduledTime (?sorted ! j)" for j
    using s that n by (auto simp: settled_def slotsNeededFor_ceiling)
  from once count show ?thesis by blast
qed

theorem placement_conservation_witness:
  "\<exists>st. scheduleTasks utcZone 0 DEFAULT_SETTINGS exampleTasks 3600000 1 = Inr st \<and>
        slotsOf 0 (availableSlots st) = 2 \<and> slotsOf 1 (availableSlots st) = 2"
proof -
  have "case scheduleTasks utcZone 0 DEFAULT_SETTINGS exampleTasks 3600000 1 of
          Inl e \<Rightarrow> False
        | Inr st \<Rightarrow> scheduledTime (sortedTasks st ! 0) = Some 32400000 \<and>
                   scheduledTime (sortedTasks st ! 1) = Some 36000000 \<and>
                   timeEstimate (sortedTasks st ! 0) = 45 \<and>
                   timeEstimate (sortedTasks st ! 1) = 60"
    by code_simp
  then obtain st where run: "scheduleTasks utcZone 0 DEFAULT_SETTINGS exampleTasks 3600000 1 = Inr st"
    and s0: "scheduledTime (sortedTasks st ! 0) = Some 32400000"
    and s1: "scheduledTime (sortedTasks st ! 1) = Some 36000000"
    and t0: "timeEstimate (sortedTasks st ! 0) = 45"
    and t1: "timeEstimate (sortedTasks st ! 1) = 60"
    by (auto split: sum.splits)
  have i0: "scheduledTime (sortTasksByPriority 0 exampleTasks ! 0) = None"
    and i1: "scheduledTime (sortTasksByPriority 0 exampleTasks ! 1) = None"
    by code_simp+
  have len: "0 < length exampleTasks" "1 < length exampleTasks"
    by (simp_all add: exampleTasks_def)
  from placement_conservation [OF run]
  have count: "\<And>j. j < length exampleTasks \<Longrightarrow>
               scheduledTime (sortedTasks st ! j) \<noteq> scheduledTime (sortTasksByPriority 0 exampleTasks ! j) \<Longrightarrow>
               int (slotsOf j (availableSlots st)) = \<lceil>real_of_int (timeEstimate (sortedTasks st ! j)) / 30\<rceil>"
    by blast
  have "int (slotsOf 0 (availableSlots st)) = \<lceil>real_of_int 45 / 30\<rceil>"
    using count [OF len(1)] s0 i0 t0 by simp
  moreover have "int (slotsOf 1 (availableSlots st)) = \<lceil>real_of_int 60 / 30\<rceil>"
    using count [OF len(2)] s1 i1 t1 by simp
  ultimately have "slotsOf 0 (availableSlots st) = 2 \<and> slotsOf 1 (availableSlots st) = 2"
    by simp
  with run show ?thesis by blast
qed

text \<open>
  C4: between any two points \<open>k \<le> l\<close> of one run (the states after \<open>k\<close> and after
  \<open>l\<close> loop iterations; the last one, \<open>2 * length tasks\<close>, is the result of
  \<open>scheduleTasks\<close>), a slot whose \<open>task\<close> is set at \<open>k\<close> has the same \<open>task\<close> at
  \<open>l\<close>, and a \<open>scheduledTime\<close> that the run has written by \<open>k\<close> (it differs from the
  value the task came in with) is the same at \<open>l\<close>.
\<close>

theorem placement_monotone:
  assumes "scheduleTasksUpTo l z now settings tasks startDate daysToSchedule = Inr sl"
    and "k \<le> l" and "l \<le> 2 * length tasks"
  shows "scheduleTasksUpTo (2 * length tasks) z now settings tasks startDate daysToSchedule =
           scheduleTasks z now settings tasks startDate daysToSchedule
         \<and> (\<exists>sk. scheduleTasksUpTo k z now settings tasks startDate daysToSchedule = Inr sk \<and>
              (\<forall>i<length (availableSlots sk).
                 task (availableSlots sk ! i) \<noteq> None \<longrightarrow>
                 task (availableSlots sl ! i) = task (availableSlots sk ! i)) \<and>
              (\<forall>j<length tasks.
                 scheduledTime (sortedTasks sk ! j) \<noteq> scheduledTime (sortTasksByPriority now tasks ! j) \<longrightarrow>
                 scheduledTime (sortedTasks sl ! j) = scheduledTime (sortedTasks sk ! j)))"
proof -
  let ?grid = "generateTimeSlots z settings startDate daysToSchedule"
  let ?sorted = "sortTasksByPriority now tasks"
  have n: "length ?sorted = length tasks" by (rule length_sortTasksByPriority)
  have run: "placeUpTo l ?grid ?sorted = Inr sl" using assms(1) by (simp add: scheduleTasksUpTo_def)
  have l2: "l \<le> 2 * length ?sorted" using assms(3) n by simp
  obtain sk where sk: "placeUpTo k ?grid ?sorted = Inr sk" and g: "grows sk sl"
    and keep: "\<forall>j<length ?sorted. scheduledTime (sortedTasks sk ! j) \<noteq> scheduledTime (?sorted ! j) \<longrightarrow>
           scheduledTime (sortedTasks sl ! j) = scheduledTime (sortedTasks sk ! j)"
    by (rule placeUpTo_between [OF run assms(2) l2]) blast
  from g have "\<forall>i<length (availableSlots sk).
                 task (availableSlots sk ! i) \<noteq> None \<longrightarrow>
                 task (availableSlots sl ! i) = task (availableSlots sk ! i)"
    by (simp add: grows_def)
  with sk keep n show ?thesis
    by (auto simp: scheduleTasksUpTo_def [symmetric] scheduleTasksUpTo_all)
qed

theorem placement_monotone_witness:
  "\<exists>sk sl. scheduleTasksUpTo 1 utcZone 0 DEFAULT_SETTINGS exampleTasks 3600000 1 = Inr sk \<and>
           scheduleTasksUpTo 4 utcZone 0 DEFAULT_SETTINGS exampleTasks 3600000 1 = Inr sl \<and>
           task (availableSlots sk ! 0) = Some 0 \<and> task (availableSlots sl ! 0) = Some 0 \<and>
           scheduledTime (sortedTasks sk ! 0) = Some 32400000 \<and>
           scheduledTime (sortedTasks sl ! 0) = Some 32400000"
proof -
  have "case scheduleTasksUpTo 4 utcZone 0 DEFAULT_SETTINGS exampleTasks 3600000 1 of
          Inl e \<Rightarrow> False | Inr sl \<Rightarrow> True"
    by code_simp
  then obtain sl where sl: "scheduleTasksUpTo 4 utcZone 0 DEFAULT_SETTINGS exampleTasks 3600000 1 = Inr sl"
    by (auto split: sum.splits)
  have kl: "(1::nat) \<le> 4" and l: "4 \<le> 2 * length exampleTasks"
    by (simp_all add: exampleTasks_def)
  from placement_monotone [OF sl kl l]
  obtain sk where sk: "scheduleTasksUpTo 1 utcZone 0 DEFAULT_SETTINGS exampleTasks 3600000 1 = Inr sk"
    and slot: "\<And>i. i < length (availableSlots sk) \<Longrightarrow> task (availableSlots sk ! i) \<noteq> None \<Longrightarrow>
                 task (availableSlots sl ! i) = task (availableSlots sk ! i)"
    and sched: "\<And>j. j < length exampleTasks \<Longrightarrow>
                 scheduledTime (sortedTasks sk ! j) \<noteq> scheduledTime (sortTasksByPriority 0 exampleTasks ! j) \<Longrightarrow>
                 scheduledTime (sortedTasks sl ! j) = scheduledTime (sortedTasks sk ! j)"
    by blast
  have "case scheduleTasksUpTo 1 utcZone 0 DEFAULT_SETTINGS exampleTasks 3600000 1 of
          Inl e \<Rightarrow> False
        | Inr sk \<Rightarrow> 0 < length (availableSlots sk) \<and> task (availableSlots sk ! 0) = Some 0 \<and>
                   scheduledTime (sortedTasks sk ! 0) = Some 32400000"
    by code_simp
  with sk have k0: "0 < length (availableSlots sk)" and k1: "task (availableSlots sk ! 0) = Some 0"
    and k2: "scheduledTime (sortedTasks sk ! 0) = Some 32400000"
    by simp_all
  have i0: "scheduledTime (sortTasksByPriority 0 exampleTasks ! 0) = None"
    by code_simp
  have len: "0 < length exampleTasks" by (simp add: exampleTasks_def)
  have "task (availableSlots sl ! 0) = Some 0"
    using slot [OF k0] k1 by simp
  moreover have "scheduledTime (sortedTasks sl ! 0) = Some 32400000"
    using sched [OF len] k2 i0 by simp
  ultimately show ?thesis using sk sl k1 k2 by blast
qed






section \<open>Degenerate inputs\<close>

lemma set_sortBy: "set (sortBy cmp xs) = set xs"
  by (induction xs) (auto simp: set_insertBy)

lemma generateTimeSlots_no_days:
  "daysToSchedule \<le> 0 \<Longrightarrow> generateTimeSlots z settings startDate daysToSchedule = []"
  by (simp add: generateTimeSlots_def)

lemma slotsNeededFor_pos: "0 < te \<Longrightarrow> 0 < slotsNeededFor te"
  unfolding slotsNeededFor_def by presburger

lemma slotsNeededFor_nonpos: "te \<le> 0 \<Longrightarrow> slotsNeededFor te \<le> 0"
  unfolding slotsNeededFor_def by presburger

text \<open>
  A task whose \<open>timeEstimate\<close> is zero or negative needs no slot; the search returns
  the empty array, the test \<open>consecutiveSlots.length >= slotsNeeded\<close> passes, and
  \<open>assignTaskToSlots\<close> throws on \<open>slots[0].startTime\<close>.
\<close>

lemma scheduleTaskAnywhere_throws:
  "timeEstimate (sortedTasks st ! t) \<le> 0 \<Longrightarrow> scheduleTaskAnywhere t st = Inl TypeError"
  using slotsNeededFor_nonpos [of "timeEstimate (sortedTasks st ! t)"]
  by (simp add: scheduleTaskAnywhere_def Let_def findConsecutiveSlots_nonpos assignTaskToSlots_empty)

lemma firstPass_empty_grid:
  "availableSlots st = [] \<Longrightarrow> firstPass ts st = Inr st"
  by (induction ts) (auto simp: scheduleTaskWithDeadline_def split: option.splits)

lemma secondPass_empty_grid:
  "availableSlots st = [] \<Longrightarrow> \<forall>t\<in>set ts. 0 < timeEstimate (sortedTasks st ! t) \<Longrightarrow>
   secondPass ts st = Inr st"
proof (induction ts)
  case Nil
  then show ?case by simp
next
  case (Cons t ts)
  have "0 < slotsNeededFor (timeEstimate (sortedTasks st ! t))"
    using Cons.prems(2) by (simp add: slotsNeededFor_pos)
  then have "scheduleTaskAnywhere t st = Inr (False, st)"
    using Cons.prems(1)
    by (simp add: scheduleTaskAnywhere_def Let_def findConsecutiveSlots_def)
  with Cons show ?case by simp
qed

text \<open>
  With positive time estimates an empty grid is a no-op: nothing is placed and no
  \<open>scheduledTime\<close> changes. So is an empty task array on any grid.
\<close>

theorem scheduleTasks_empty_grid:
  assumes "generateTimeSlots z settings startDate daysToSchedule = []"
    and "\<forall>t\<in>set tasks. 0 < timeEstimate t"
  shows "scheduleTasks z now settings tasks startDate daysToSchedule =
         Inr \<lparr>availableSlots = [], sortedTasks = sortTasksByPriority now tasks\<rparr>"
proof -
  let ?st = "\<lparr>availableSlots = [], sortedTasks = sortTasksByPriority now tasks\<rparr>"
  have "\<forall>t\<in>set [0..<length (sortTasksByPriority now tasks)]. 0 < timeEstimate (sortedTasks ?st ! t)"
  proof -
    have "sortTasksByPriority now tasks ! t \<in> set tasks"
      if "t < length (sortTasksByPriority now tasks)" for t
      using nth_mem [OF that] by (simp add: sortTasksByPriority_def set_sortBy)
    with assms(2) show ?thesis by simp
  qed
  then have "secondPass [0..<length (sortTasksByPriority now tasks)] ?st = Inr ?st"
    by (intro secondPass_empty_grid) simp_all
  then show ?thesis
    by (simp add: scheduleTasks_def placeTasks_def assms(1) firstPass_empty_grid)
qed

theorem scheduleTasks_no_tasks:
  "scheduleTasks z now settings [] startDate daysToSchedule =
   Inr \<lparr>availableSlots = generateTimeSlots z settings startDate daysToSchedule, sortedTasks = []\<rparr>"
  by (simp add: scheduleTasks_def placeTasks_def sortTasksByPriority_def)

text \<open>
  C8: on an empty grid (here: no working day is selected) \<open>scheduleTasks\<close> throws as
  soon as the second pass reaches a task whose \<open>timeEstimate\<close> is 0, as \<open>Task.fromLine\<close>
  builds it from the tag \<open>#time/0m\<close>.
\<close>

theorem scheduleTasks_empty_grid_throws:
  "scheduleTasks z now (settings\<lparr>workingDays := []\<rparr>)
     [\<lparr>priority = 3, timeEstimate = 0, deadline = None, scheduledTime = None\<rparr>]
     startDate daysToSchedule
   = Inl TypeError"
  by (simp add: scheduleTasks_def placeTasks_def sortTasksByPriority_def
      generateTimeSlots_no_working_days scheduleTaskAnywhere_throws)

end
